theory Spec2Isabelle
  imports Main "HOL-Library.Word" "HOL-Library.Signed_Division" "HOL-Library.Multiset"
begin

section \<open>Data model\<close>

text \<open>
  The program is the Go file with \<open>Controller\<close>, \<open>Collector\<close> and \<open>Worker\<close>.
  \<open>time.Duration\<close> is an \<open>int64\<close> count of nanoseconds: a 64-bit word whose
  additions wrap, compared and divided as a signed value. \<open>numQueries\<close> and
  \<open>numWorkers\<close> are \<open>uint64\<close>. A Go \<open>int\<close> that holds a slice length or an index
  into a slice is an \<open>int\<close> here; every use is range-checked by \<open>index\<close>, and the
  cursor is shown below to stay under the roster length.
\<close>

type_synonym Duration = "64 word"

datatype error = IndexOutOfRange | DivideByZero | NilDereference

record WorkSample =
  OpTime :: Duration

record DataStore =
  numQueries :: "64 word"
  totalProcessingTime :: Duration
  minQueryTime :: "Duration option"
  maxQueryTime :: "Duration option"
  allQueryTimes :: "Duration list"

record QueryParam =
  Host :: string
  Start :: string
  End :: string

text \<open>
  A \<open>*WorkerHandle\<close> is compared by identity only. Each handle is allocated when its
  worker is spawned and appended to \<open>workers\<close> at once, so the address of the k-th
  handle allocated is modelled by the number k.
\<close>

type_synonym WorkerHandle = nat

text \<open>
  \<open>sent\<close> is not a field of the Go struct: it is the trace of the sends
  \<open>WorkOut <- qp\<close> the controller performs, in order, each with the handle whose
  channel received the record.
\<close>

record Controller =
  data :: "QueryParam list"
  workers :: "WorkerHandle list"
  workerMap :: "string \<rightharpoonup> WorkerHandle"
  numWorkers :: "64 word"
  lbIndex :: int
  sent :: "(WorkerHandle \<times> QueryParam) list"

record Report =
  total :: Duration
  count :: "64 word"
  rmin :: Duration
  rmax :: Duration
  median :: Duration
  average :: Duration

section \<open>Primitive operations of the language\<close>

text \<open>Slice indexing \<open>s[i]\<close>: a run-time panic when the index is out of range.\<close>

definition index :: "'a list \<Rightarrow> int \<Rightarrow> error + 'a" where
  "index s i = (if 0 \<le> i \<and> i < int (length s) then Inr (s ! nat i) else Inl IndexOutOfRange)"

text \<open>
  Division of two \<open>int64\<close> values: a panic when the divisor is zero, the quotient
  truncated toward zero otherwise, reduced to 64 bits (only \<open>MinInt64 / -1\<close> wraps).
\<close>

definition quo64 :: "64 word \<Rightarrow> 64 word \<Rightarrow> error + 64 word" where
  "quo64 a b = (if b = 0 then Inl DivideByZero else Inr (word_of_int (sint a sdiv sint b)))"

text \<open>
  \<open>sort.Sort\<close> on a \<open>DurationSlice\<close>, whose \<open>Less\<close> is the signed comparison of the
  two durations: the slice is rearranged in ascending order. Elements that compare
  equal are the same number, so the result does not depend on the algorithm.
\<close>

definition sortDurations :: "Duration list \<Rightarrow> Duration list" where
  "sortDurations s = sort_key sint s"

section \<open>Collector\<close>

definition NewDataStore :: DataStore where
  "NewDataStore = \<lparr>numQueries = 0, totalProcessingTime = 0, minQueryTime = None,
     maxQueryTime = None, allQueryTimes = []\<rparr>"

definition AddWorkSample :: "DataStore \<Rightarrow> WorkSample \<Rightarrow> DataStore" where
  "AddWorkSample d sample =
     (let d1 = d\<lparr>numQueries := numQueries d + 1\<rparr>;
          d2 = d1\<lparr>totalProcessingTime := totalProcessingTime d1 + OpTime sample\<rparr>;
          d3 = d2\<lparr>allQueryTimes := allQueryTimes d2 @ [OpTime sample]\<rparr>;
          d4 = (case minQueryTime d3 of
                  None \<Rightarrow> d3\<lparr>minQueryTime := Some (OpTime sample)\<rparr>
                | Some m \<Rightarrow> if OpTime sample <s m
                           then d3\<lparr>minQueryTime := Some (OpTime sample)\<rparr> else d3)
      in (case maxQueryTime d4 of
            None \<Rightarrow> d4\<lparr>maxQueryTime := Some (OpTime sample)\<rparr>
          | Some m \<Rightarrow> if m <s OpTime sample
                     then d4\<lparr>maxQueryTime := Some (OpTime sample)\<rparr> else d4))"

text \<open>The loop \<open>for _, d := range allQueryTimes { sum += d }\<close>, from \<open>sum = 0\<close>.\<close>

fun sumLoop :: "Duration \<Rightarrow> Duration list \<Rightarrow> Duration" where
  "sumLoop acc [] = acc"
| "sumLoop acc (d # ds) = sumLoop (acc + d) ds"

text \<open>
  \<open>calcMedianAndAverage\<close> sorts the stored slice in place, so the store is returned
  with the two results. \<open>dataLen\<close> is never negative, so Go's truncating \<open>/\<close> and
  \<open>%\<close> on it are \<open>sdiv\<close> and \<open>smod\<close>.
\<close>

definition calcMedianAndAverage :: "DataStore \<Rightarrow> error + (Duration \<times> Duration \<times> DataStore)" where
  "calcMedianAndAverage d =
     (let d' = d\<lparr>allQueryTimes := sortDurations (allQueryTimes d)\<rparr>;
          dataLen = int (length (allQueryTimes d'));
          med = (if dataLen smod 2 = 0
                 then (case index (allQueryTimes d') (dataLen sdiv 2) of
                         Inl e \<Rightarrow> Inl e
                       | Inr mid0 \<Rightarrow>
                           (case index (allQueryTimes d') (dataLen sdiv 2 - 1) of
                              Inl e \<Rightarrow> Inl e
                            | Inr mid1 \<Rightarrow> quo64 (mid0 + mid1) 2))
                 else index (allQueryTimes d') (dataLen sdiv 2))
      in (case med of
            Inl e \<Rightarrow> Inl e
          | Inr m \<Rightarrow>
              (case quo64 (sumLoop 0 (allQueryTimes d')) (word_of_int dataLen) of
                 Inl e \<Rightarrow> Inl e
               | Inr a \<Rightarrow> Inr (m, a, d'))))"

text \<open>
  \<open>Collector.Run\<close>: the samples are taken from the channel in their order of arrival,
  then the numbers are computed and printed. \<open>String()\<close> on a nil \<open>*time.Duration\<close>
  is a nil dereference. The printed block is the \<open>Report\<close>.
\<close>

definition collect :: "WorkSample list \<Rightarrow> DataStore" where
  "collect samples = foldl AddWorkSample NewDataStore samples"

definition Collector_Run :: "WorkSample list \<Rightarrow> error + Report" where
  "Collector_Run samples =
     (case calcMedianAndAverage (collect samples) of
        Inl e \<Rightarrow> Inl e
      | Inr (m, a, d) \<Rightarrow>
          (case minQueryTime d of
             None \<Rightarrow> Inl NilDereference
           | Some mn \<Rightarrow>
               (case maxQueryTime d of
                  None \<Rightarrow> Inl NilDereference
                | Some mx \<Rightarrow>
                    Inr \<lparr>total = totalProcessingTime d, count = numQueries d,
                         rmin = mn, rmax = mx, median = m, average = a\<rparr>)))"

section \<open>Controller\<close>

definition NewController :: "QueryParam list \<Rightarrow> 64 word \<Rightarrow> Controller" where
  "NewController qps n = \<lparr>data = qps, workers = [], workerMap = Map.empty,
     numWorkers = n, lbIndex = 0, sent = []\<rparr>"

definition roundRobinSelect :: "Controller \<Rightarrow> error + (WorkerHandle \<times> Controller)" where
  "roundRobinSelect c =
     (if int (length (workers c)) = lbIndex c + 1
      then (case index (workers c) 0 of
              Inl e \<Rightarrow> Inl e
            | Inr w \<Rightarrow> Inr (w, c\<lparr>lbIndex := 0\<rparr>))
      else (case index (workers c) (lbIndex c) of
              Inl e \<Rightarrow> Inl e
            | Inr channels \<Rightarrow> Inr (channels, c\<lparr>lbIndex := lbIndex c + 1\<rparr>)))"

text \<open>The body of the loop of \<open>Controller.Run\<close>, for one record.\<close>

definition dispatch :: "Controller \<Rightarrow> QueryParam \<Rightarrow> error + Controller" where
  "dispatch c qp =
     (case workerMap c (Host qp) of
        Some worker \<Rightarrow> Inr (c\<lparr>sent := sent c @ [(worker, qp)]\<rparr>)
      | None \<Rightarrow>
          if 0 < numWorkers c \<and> int (length (workers c)) = sint (numWorkers c)
          then (case roundRobinSelect c of
                  Inl e \<Rightarrow> Inl e
                | Inr (channels, c') \<Rightarrow>
                    Inr (c'\<lparr>workerMap := (workerMap c')(Host qp \<mapsto> channels),
                            sent := sent c' @ [(channels, qp)]\<rparr>))
          else (let channels = length (workers c)
                in Inr (c\<lparr>workerMap := (workerMap c)(Host qp \<mapsto> channels),
                          workers := workers c @ [channels],
                          sent := sent c @ [(channels, qp)]\<rparr>)))"

fun dispatchAll :: "Controller \<Rightarrow> QueryParam list \<Rightarrow> error + Controller" where
  "dispatchAll c [] = Inr c"
| "dispatchAll c (qp # qps) =
     (case dispatch c qp of Inl e \<Rightarrow> Inl e | Inr c' \<Rightarrow> dispatchAll c' qps)"

text \<open>
  \<open>Controller.Run\<close>: the loop over \<open>c.data\<close>. What follows the loop (closing the work
  channels, waiting for the workers and for the collector) changes none of the
  controller's fields and is left out; so are the goroutines, whose only effect on the
  collector is the order in which the samples arrive.
\<close>

definition Run :: "Controller \<Rightarrow> error + Controller" where
  "Run c = dispatchAll c (data c)"

text \<open>A record for host \<open>h\<close>; the two time stamps are passed through and never read.\<close>

definition qp :: "string \<Rightarrow> QueryParam" where
  "qp h = \<lparr>Host = h, Start = [], End = []\<rparr>"

section \<open>Arithmetic of signed 64-bit values\<close>

lemma sdiv_pos_divisor:
  "0 < l \<Longrightarrow> (k::int) sdiv l = (if 0 \<le> k then k div l else - ((- k) div l))"
  by (simp add: signed_divide_int_def sgn_if)

lemma smod_nonneg: "0 \<le> k \<Longrightarrow> 0 < l \<Longrightarrow> (k::int) smod l = k mod l"
  by (simp add: signed_modulo_int_def sgn_if)

lemma sdiv_between:
  fixes S n lo hi :: int
  assumes "0 < n" "n * lo \<le> S" "S \<le> n * hi"
  shows "lo \<le> S sdiv n \<and> S sdiv n \<le> hi"
proof (cases "0 \<le> S")
  case True
  from zdiv_mono1 [OF assms(2) assms(1)] assms(1) have "lo \<le> S div n" by simp
  moreover from zdiv_mono1 [OF assms(3) assms(1)] assms(1) have "S div n \<le> hi" by simp
  ultimately show ?thesis using True assms(1) by (simp add: sdiv_pos_divisor)
next
  case False
  have nz: "n \<noteq> 0" using assms(1) by simp
  have "(- S) div n \<le> (n * (- lo)) div n"
    using assms by (intro zdiv_mono1) simp_all
  also have "\<dots> = - lo"
    using nz by (rule nonzero_mult_div_cancel_left)
  finally have lo: "(- S) div n \<le> - lo" .
  have "(n * (- hi)) div n \<le> (- S) div n"
    using assms by (intro zdiv_mono1) simp_all
  moreover have "(n * (- hi)) div n = - hi"
    using nz by (rule nonzero_mult_div_cancel_left)
  ultimately have hi: "- hi \<le> (- S) div n" by simp
  from lo hi show ?thesis using False assms(1) by (simp add: sdiv_pos_divisor)
qed

lemma sint_word_of_int_64:
  "- (2 ^ 63) \<le> k \<Longrightarrow> k < 2 ^ 63 \<Longrightarrow> sint (word_of_int k :: 64 word) = k"
  by (simp add: sint_sbintrunc' signed_take_bit_int_eq_self)

lemma sint_64_range: "- (2 ^ 63) \<le> sint (w :: 64 word) \<and> sint w < 2 ^ 63"
  using sint_ge [of w] sint_lt [of w] by simp

lemma sint_quo64:
  assumes "0 < sint b"
  shows "\<exists>q. quo64 a b = Inr q \<and> sint q = sint a sdiv sint b"
proof -
  from assms have nz: "b \<noteq> 0" by auto
  have lo: "sint b * (- (2 ^ 63)) \<le> sint a"
  proof -
    have "sint b * (- (2 ^ 63)) \<le> 1 * (- (2 ^ 63))"
      using assms by (intro mult_right_mono_neg) simp_all
    with sint_64_range [of a] show ?thesis by simp
  qed
  have hi: "sint a \<le> sint b * (2 ^ 63 - 1)"
  proof -
    have "1 * (2 ^ 63 - 1) \<le> sint b * (2 ^ 63 - 1 :: int)"
      using assms by (intro mult_right_mono) simp_all
    with sint_64_range [of a] show ?thesis by simp
  qed
  from sdiv_between [OF assms lo hi]
  have "sint (word_of_int (sint a sdiv sint b) :: 64 word) = sint a sdiv sint b"
    by (intro sint_word_of_int_64) simp_all
  with nz show ?thesis by (simp add: quo64_def)
qed

lemma sint_of_length:
  "n < 2 ^ 63 \<Longrightarrow> sint (of_nat n :: 64 word) = int n"
  using sint_word_of_int_64 [of "int n"] by simp

lemma sint_sum_list: "sint (sum_list (s :: 64 word list)) = signed_take_bit 63 (\<Sum>x\<leftarrow>s. sint x)"
proof -
  have "sum_list s = word_of_int (\<Sum>x\<leftarrow>s. sint x)"
    by (induction s) simp_all
  then show ?thesis
    by (simp add: sint_sbintrunc')
qed

lemma sint_exact:
  "\<bar>k\<bar> < 2 ^ 63 \<Longrightarrow> signed_take_bit 63 k = (k::int)"
  by (intro signed_take_bit_int_eq_self) linarith+

lemma unat_of_nat_64: "n < 2 ^ 64 \<Longrightarrow> unat (of_nat n :: 64 word) = n"
  by (simp add: unat_of_nat)

lemma of_nat_64_eq_0: "n < 2 ^ 64 \<Longrightarrow> (of_nat n :: 64 word) = 0 \<longleftrightarrow> n = 0"
proof
  assume "n < 2 ^ 64" and "(of_nat n :: 64 word) = 0"
  then have "unat (of_nat n :: 64 word) = 0" by simp
  with \<open>n < 2 ^ 64\<close> show "n = 0" by (simp add: unat_of_nat_64)
qed simp

lemma sint_64_cases:
  "sint (w :: 64 word) = (if uint w < 2 ^ 63 then uint w else uint w - 2 ^ 64)"
proof -
  have s: "sint w = (uint w + 2 ^ 63) mod 2 ^ 64 - 2 ^ 63"
    using int_word_sint [of "uint w", where 'a = 64] by simp
  have r: "0 \<le> uint w" "uint w < 2 ^ 64"
    using uint_lt2p [of w] by simp_all
  show ?thesis
  proof (cases "uint w < 2 ^ 63")
    case True
    with r have "(uint w + 2 ^ 63) mod 2 ^ 64 = uint w + 2 ^ 63"
      by (intro mod_pos_pos_trivial) simp_all
    with s True show ?thesis by simp
  next
    case False
    have "uint w + 2 ^ 63 = (uint w - 2 ^ 63) + 1 * 2 ^ 64"
      by simp
    then have "(uint w + 2 ^ 63) mod 2 ^ 64 = ((uint w - 2 ^ 63) + 1 * 2 ^ 64) mod 2 ^ 64"
      by (rule arg_cong)
    also have "\<dots> = (uint w - 2 ^ 63) mod 2 ^ 64"
      by (simp only: mod_mult_self1)
    also from r False have "\<dots> = uint w - 2 ^ 63"
      by (intro mod_pos_pos_trivial) simp_all
    finally show ?thesis using s False by simp
  qed
qed

lemma sint_nonneg_unat:
  "0 \<le> sint (w :: 64 word) \<Longrightarrow> int (unat w) = sint w"
  using uint_lt2p [of w] by (simp add: sint_64_cases split: if_splits)

lemma sint_neg_unat:
  "sint (w :: 64 word) < 0 \<Longrightarrow> 2 ^ 63 \<le> unat w"
proof -
  assume "sint w < 0"
  then have "\<not> uint w < 2 ^ 63" by (auto simp: sint_64_cases split: if_splits)
  then have "(2 ^ 63 :: int) \<le> int (unat w)" by simp
  then show ?thesis by (simp only: flip: of_nat_le_iff [where 'a = int]) simp
qed

lemma sint_zero_64: "sint (w :: 64 word) = 0 \<Longrightarrow> w = 0"
proof -
  assume "sint w = 0"
  with uint_lt2p [of w] have "uint w = 0"
    by (simp add: sint_64_cases split: if_splits)
  then show ?thesis by (simp add: uint_0_iff)
qed

lemma sint_inj_64: "sint (v :: 64 word) = sint w \<Longrightarrow> v = w"
  by (rule signed_word_eqI)

text \<open>Sums of integer lists: bounds used for the average and the middle pair.\<close>

lemma member_le_sum_list_int:
  "x \<in> set xs \<Longrightarrow> \<forall>y\<in>set xs. (0::int) \<le> y \<Longrightarrow> x \<le> sum_list xs"
proof (induction xs)
  case Nil
  then show ?case by simp
next
  case (Cons y ys)
  have "0 \<le> sum_list ys" using Cons.prems(2) by (intro sum_list_nonneg) simp
  with Cons show ?case by auto
qed

lemma two_le_sum_list:
  fixes g :: "'a \<Rightarrow> int"
  assumes "i < j" "j < length s" "\<forall>x\<in>set s. 0 \<le> g x"
  shows "g (s ! i) + g (s ! j) \<le> (\<Sum>x\<leftarrow>s. g x)"
  using assms
proof (induction s arbitrary: i j)
  case Nil
  then show ?case by simp
next
  case (Cons x xs)
  from Cons.prems obtain j' where j: "j = Suc j'" "j' < length xs"
    by (cases j) simp_all
  show ?case
  proof (cases i)
    case 0
    have "g (xs ! j') \<in> set (map g xs)" using j by simp
    then have "g (xs ! j') \<le> sum_list (map g xs)"
      using Cons.prems(3) by (intro member_le_sum_list_int) auto
    with 0 j show ?thesis by simp
  next
    case (Suc i')
    with Cons.prems j have "g (xs ! i') + g (xs ! j') \<le> (\<Sum>x\<leftarrow>xs. g x)"
      by (intro Cons.IH) simp_all
    moreover have "0 \<le> g x" using Cons.prems(3) by simp
    ultimately show ?thesis using Suc j by simp
  qed
qed

lemma sum_list_bounds:
  fixes f :: "'a \<Rightarrow> int"
  assumes "\<forall>x\<in>set xs. lo \<le> f x \<and> f x \<le> hi"
  shows "int (length xs) * lo \<le> (\<Sum>x\<leftarrow>xs. f x) \<and> (\<Sum>x\<leftarrow>xs. f x) \<le> int (length xs) * hi"
  using assms by (induction xs) (auto simp: algebra_simps)

section \<open>The collector: running aggregates\<close>

lemma sumLoop_sum_list: "sumLoop acc ds = acc + sum_list ds"
  by (induction ds arbitrary: acc) (simp_all add: add.assoc)


lemma length_sortDurations: "length (sortDurations s) = length s"
  by (simp add: sortDurations_def)

lemma mset_sortDurations: "mset (sortDurations s) = mset s"
  by (simp add: sortDurations_def)

lemma sum_list_map_sortDurations:
  "(\<Sum>x\<leftarrow>sortDurations s. f x) = (\<Sum>x\<leftarrow>s. (f x :: int))"
proof -
  have "sum_mset (image_mset f (mset (sortDurations s))) = sum_mset (image_mset f (mset s))"
    by (simp add: mset_sortDurations)
  then show ?thesis
    by (simp only: sum_mset_sum_list flip: mset_map)
qed

lemma set_sortDurations: "set (sortDurations s) = set s"
  by (simp add: sortDurations_def)

lemma sorted_sortDurations: "sorted (map sint (sortDurations s))"
  by (simp add: sortDurations_def sorted_sort_key)

lemma sortDurations_mset: "mset s1 = mset s2 \<Longrightarrow> sortDurations s1 = sortDurations s2"
  unfolding sortDurations_def
  by (rule sort_key_eq_sort_key) (auto intro: inj_onI sint_inj_64)

lemma AddWorkSample_numQueries: "numQueries (AddWorkSample d s) = numQueries d + 1"
  by (simp add: AddWorkSample_def Let_def split: option.splits)

lemma AddWorkSample_total:
  "totalProcessingTime (AddWorkSample d s) = totalProcessingTime d + OpTime s"
  by (simp add: AddWorkSample_def Let_def split: option.splits)

lemma AddWorkSample_all: "allQueryTimes (AddWorkSample d s) = allQueryTimes d @ [OpTime s]"
  by (simp add: AddWorkSample_def Let_def split: option.splits)

lemma AddWorkSample_min:
  "minQueryTime (AddWorkSample d s) =
     (case minQueryTime d of None \<Rightarrow> Some (OpTime s)
      | Some m \<Rightarrow> if OpTime s <s m then Some (OpTime s) else Some m)"
  by (simp add: AddWorkSample_def Let_def split: option.splits)

lemma AddWorkSample_max:
  "maxQueryTime (AddWorkSample d s) =
     (case maxQueryTime d of None \<Rightarrow> Some (OpTime s)
      | Some m \<Rightarrow> if m <s OpTime s then Some (OpTime s) else Some m)"
  by (simp add: AddWorkSample_def Let_def split: option.splits)

lemma collect_Nil: "collect [] = NewDataStore"
  by (simp add: collect_def)

lemma collect_snoc: "collect (xs @ [x]) = AddWorkSample (collect xs) x"
  by (simp add: collect_def)

lemma collect_numQueries: "numQueries (collect xs) = of_nat (length xs)"
  by (induction xs rule: rev_induct)
     (simp_all add: collect_Nil collect_snoc NewDataStore_def AddWorkSample_numQueries)

lemma collect_all: "allQueryTimes (collect xs) = map OpTime xs"
  by (induction xs rule: rev_induct)
     (simp_all add: collect_Nil collect_snoc NewDataStore_def AddWorkSample_all)

lemma collect_total: "totalProcessingTime (collect xs) = sum_list (map OpTime xs)"
  by (induction xs rule: rev_induct)
     (simp_all add: collect_Nil collect_snoc NewDataStore_def AddWorkSample_total)

lemma collect_min_None: "minQueryTime (collect xs) = None \<longleftrightarrow> xs = []"
  by (induction xs rule: rev_induct)
     (simp_all add: collect_Nil collect_snoc NewDataStore_def AddWorkSample_min split: option.splits)

lemma collect_max_None: "maxQueryTime (collect xs) = None \<longleftrightarrow> xs = []"
  by (induction xs rule: rev_induct)
     (simp_all add: collect_Nil collect_snoc NewDataStore_def AddWorkSample_max split: option.splits)

lemma collect_min_least:
  "minQueryTime (collect xs) = Some m \<Longrightarrow>
     m \<in> OpTime ` set xs \<and> (\<forall>x\<in>set xs. sint m \<le> sint (OpTime x))"
proof (induction xs arbitrary: m rule: rev_induct)
  case Nil
  then show ?case by (simp add: collect_Nil NewDataStore_def)
next
  case (snoc x xs)
  show ?case
  proof (cases "minQueryTime (collect xs)")
    case None
    then have "xs = []" by (simp add: collect_min_None)
    moreover from snoc.prems None have "m = OpTime x"
      by (simp add: collect_snoc AddWorkSample_min)
    ultimately show ?thesis by simp
  next
    case (Some m0)
    from snoc.IH [OF Some] have ih: "m0 \<in> OpTime ` set xs" "\<forall>y\<in>set xs. sint m0 \<le> sint (OpTime y)"
      by simp_all
    show ?thesis
    proof (cases "OpTime x <s m0")
      case True
      with snoc.prems Some have "m = OpTime x"
        by (simp add: collect_snoc AddWorkSample_min)
      with True ih show ?thesis
        by (fastforce simp: word_sless_alt)
    next
      case False
      with snoc.prems Some have "m = m0"
        by (simp add: collect_snoc AddWorkSample_min)
      with False ih show ?thesis
        by (fastforce simp: word_sless_alt)
    qed
  qed
qed

lemma collect_max_greatest:
  "maxQueryTime (collect xs) = Some m \<Longrightarrow>
     m \<in> OpTime ` set xs \<and> (\<forall>x\<in>set xs. sint (OpTime x) \<le> sint m)"
proof (induction xs arbitrary: m rule: rev_induct)
  case Nil
  then show ?case by (simp add: collect_Nil NewDataStore_def)
next
  case (snoc x xs)
  show ?case
  proof (cases "maxQueryTime (collect xs)")
    case None
    then have "xs = []" by (simp add: collect_max_None)
    moreover from snoc.prems None have "m = OpTime x"
      by (simp add: collect_snoc AddWorkSample_max)
    ultimately show ?thesis by simp
  next
    case (Some m0)
    from snoc.IH [OF Some] have ih: "m0 \<in> OpTime ` set xs" "\<forall>y\<in>set xs. sint (OpTime y) \<le> sint m0"
      by simp_all
    show ?thesis
    proof (cases "m0 <s OpTime x")
      case True
      with snoc.prems Some have "m = OpTime x"
        by (simp add: collect_snoc AddWorkSample_max)
      with True ih show ?thesis
        by (fastforce simp: word_sless_alt)
    next
      case False
      with snoc.prems Some have "m = m0"
        by (simp add: collect_snoc AddWorkSample_max)
      with False ih show ?thesis
        by (fastforce simp: word_sless_alt)
    qed
  qed
qed

text \<open>
  C6: after any sequence of \<open>AddWorkSample\<close> calls on a fresh store (fewer than
  \<open>2^64\<close> of them, as a slice holds), the retained vector is the sequence of the
  samples received, in their order; \<open>numQueries\<close> is its length, the number of samples
  received; \<open>totalProcessingTime\<close> is the sum of the samples received (the 64-bit
  sum, that is the exact sum reduced to a signed 64-bit value); the minimum and the
  maximum are set exactly when \<open>numQueries > 0\<close>, and when set they are the least and
  the greatest sample received so far, in the signed order.
\<close>

theorem aggregator_invariants:
  assumes "length samples < 2 ^ 64"
  shows "allQueryTimes (collect samples) = map OpTime samples
    \<and> unat (numQueries (collect samples)) = length samples
    \<and> totalProcessingTime (collect samples) = (\<Sum>x\<leftarrow>samples. OpTime x)
    \<and> sint (totalProcessingTime (collect samples))
        = signed_take_bit 63 (\<Sum>x\<leftarrow>samples. sint (OpTime x))
    \<and> (\<forall>m. minQueryTime (collect samples) = Some m \<longrightarrow>
          m \<in> OpTime ` set samples \<and> (\<forall>x\<in>set samples. m \<le>s OpTime x))
    \<and> (\<forall>m. maxQueryTime (collect samples) = Some m \<longrightarrow>
          m \<in> OpTime ` set samples \<and> (\<forall>x\<in>set samples. OpTime x \<le>s m))
    \<and> unat (numQueries (collect samples)) = length (allQueryTimes (collect samples))
    \<and> totalProcessingTime (collect samples) = sum_list (allQueryTimes (collect samples))
    \<and> sint (totalProcessingTime (collect samples))
        = signed_take_bit 63 (\<Sum>x\<leftarrow>allQueryTimes (collect samples). sint x)
    \<and> (minQueryTime (collect samples) \<noteq> None \<longleftrightarrow> 0 < numQueries (collect samples))
    \<and> (maxQueryTime (collect samples) \<noteq> None \<longleftrightarrow> 0 < numQueries (collect samples))
    \<and> (\<forall>m. minQueryTime (collect samples) = Some m \<longrightarrow>
          m \<in> set (allQueryTimes (collect samples))
          \<and> (\<forall>x\<in>set (allQueryTimes (collect samples)). m \<le>s x))
    \<and> (\<forall>m. maxQueryTime (collect samples) = Some m \<longrightarrow>
          m \<in> set (allQueryTimes (collect samples))
          \<and> (\<forall>x\<in>set (allQueryTimes (collect samples)). x \<le>s m))"
proof -
  have cnt: "unat (numQueries (collect samples)) = length (allQueryTimes (collect samples))"
    using assms by (simp add: collect_numQueries collect_all unat_of_nat_64)
  have tot: "totalProcessingTime (collect samples) = sum_list (allQueryTimes (collect samples))"
    by (simp add: collect_total collect_all)
  have pos: "0 < numQueries (collect samples) \<longleftrightarrow> samples \<noteq> []"
    using assms by (simp add: collect_numQueries word_greater_zero_iff of_nat_64_eq_0)
  have mn: "minQueryTime (collect samples) = Some m \<Longrightarrow>
      m \<in> set (allQueryTimes (collect samples))
      \<and> (\<forall>x\<in>set (allQueryTimes (collect samples)). m \<le>s x)" for m
    using collect_min_least [of samples m] by (simp add: collect_all word_sle_eq)
  have mx: "maxQueryTime (collect samples) = Some m \<Longrightarrow>
      m \<in> set (allQueryTimes (collect samples))
      \<and> (\<forall>x\<in>set (allQueryTimes (collect samples)). x \<le>s m)" for m
    using collect_max_greatest [of samples m] by (simp add: collect_all word_sle_eq)
  have st: "sint (totalProcessingTime (collect samples))
        = signed_take_bit 63 (\<Sum>x\<leftarrow>allQueryTimes (collect samples). sint x)"
    by (simp only: tot sint_sum_list)
  have vec: "allQueryTimes (collect samples) = map OpTime samples"
    by (rule collect_all)
  have cnt': "unat (numQueries (collect samples)) = length samples"
    using cnt by (simp only: vec length_map)
  have tot': "totalProcessingTime (collect samples) = (\<Sum>x\<leftarrow>samples. OpTime x)"
    by (rule collect_total)
  have st': "sint (totalProcessingTime (collect samples))
        = signed_take_bit 63 (\<Sum>x\<leftarrow>samples. sint (OpTime x))"
    using st by (simp add: vec comp_def)
  have mn': "minQueryTime (collect samples) = Some m \<Longrightarrow>
      m \<in> OpTime ` set samples \<and> (\<forall>x\<in>set samples. m \<le>s OpTime x)" for m
    using collect_min_least [of samples m] by (simp add: word_sle_eq)
  have mx': "maxQueryTime (collect samples) = Some m \<Longrightarrow>
      m \<in> OpTime ` set samples \<and> (\<forall>x\<in>set samples. OpTime x \<le>s m)" for m
    using collect_max_greatest [of samples m] by (simp add: word_sle_eq)
  have opt: "(minQueryTime (collect samples) \<noteq> None \<longleftrightarrow> 0 < numQueries (collect samples))"
    "(maxQueryTime (collect samples) \<noteq> None \<longleftrightarrow> 0 < numQueries (collect samples))"
    using pos by (simp_all add: collect_min_None collect_max_None)
  from vec cnt' tot' st' mn' mx' cnt tot st opt mn mx show ?thesis
    by (intro conjI allI impI) blast+
qed

theorem aggregator_invariants_witness:
  "length [\<lparr>OpTime = 5\<rparr>, \<lparr>OpTime = 1\<rparr>, \<lparr>OpTime = 3\<rparr>] < (2::nat) ^ 64
   \<and> unat (numQueries (collect [\<lparr>OpTime = 5\<rparr>, \<lparr>OpTime = 1\<rparr>, \<lparr>OpTime = 3\<rparr>])) = 3
   \<and> minQueryTime (collect [\<lparr>OpTime = 5\<rparr>, \<lparr>OpTime = 1\<rparr>, \<lparr>OpTime = 3\<rparr>]) = Some 1
   \<and> maxQueryTime (collect [\<lparr>OpTime = 5\<rparr>, \<lparr>OpTime = 1\<rparr>, \<lparr>OpTime = 3\<rparr>]) = Some 5
   \<and> 1 \<in> set (allQueryTimes (collect [\<lparr>OpTime = 5\<rparr>, \<lparr>OpTime = 1\<rparr>, \<lparr>OpTime = 3\<rparr>]))
   \<and> 5 \<in> set (allQueryTimes (collect [\<lparr>OpTime = 5\<rparr>, \<lparr>OpTime = 1\<rparr>, \<lparr>OpTime = 3\<rparr>]))
   \<and> allQueryTimes (collect [\<lparr>OpTime = 5\<rparr>, \<lparr>OpTime = 1\<rparr>, \<lparr>OpTime = 3\<rparr>]) = [5, 1, 3]
   \<and> totalProcessingTime (collect [\<lparr>OpTime = 5\<rparr>, \<lparr>OpTime = 1\<rparr>, \<lparr>OpTime = 3\<rparr>]) = 9
   \<and> 1 \<in> OpTime ` set [\<lparr>OpTime = 5\<rparr>, \<lparr>OpTime = 1\<rparr>, \<lparr>OpTime = 3\<rparr>]
   \<and> 5 \<in> OpTime ` set [\<lparr>OpTime = 5\<rparr>, \<lparr>OpTime = 1\<rparr>, \<lparr>OpTime = 3\<rparr>]"
proof -
  let ?S = "[\<lparr>OpTime = 5\<rparr>, \<lparr>OpTime = 1\<rparr>, \<lparr>OpTime = 3\<rparr>]"
  have h: "length ?S < (2::nat) ^ 64" by simp
  have mn: "minQueryTime (collect ?S) = Some 1" and mx: "maxQueryTime (collect ?S) = Some 5"
    by (simp_all add: collect_def NewDataStore_def AddWorkSample_def word_sless_alt)
  have len: "length (allQueryTimes (collect ?S)) = 3"
    by (simp add: collect_all)
  from aggregator_invariants [OF h] mn mx len h show ?thesis by simp
qed

section \<open>The collector: finalization\<close>

lemma calc_nonempty:
  assumes ne: "allQueryTimes d \<noteq> []" and len: "length (allQueryTimes d) < 2 ^ 63"
  defines "s \<equiv> sortDurations (allQueryTimes d)"
  shows "\<exists>m a. calcMedianAndAverage d = Inr (m, a, d\<lparr>allQueryTimes := s\<rparr>)
      \<and> (odd (length s) \<longrightarrow> m = s ! (length s div 2))
      \<and> (even (length s) \<longrightarrow>
            sint m = sint (s ! (length s div 2) + s ! (length s div 2 - 1)) sdiv 2)
      \<and> sint a = sint (sum_list s) sdiv int (length s)"
proof -
  let ?n = "length s"
  have n_pos: "0 < ?n" using ne by (simp add: s_def length_sortDurations)
  have n_lt: "?n < 2 ^ 63" using len by (simp add: s_def length_sortDurations)
  have half: "int ?n sdiv 2 = int (?n div 2)"
    by (simp add: sdiv_pos_divisor zdiv_int)
  have par: "int ?n smod 2 = 0 \<longleftrightarrow> even ?n"
    by (simp add: smod_nonneg) presburger
  have i0: "index s (int (?n div 2)) = Inr (s ! (?n div 2))"
    using n_pos by (simp add: index_def)
  have i1: "even ?n \<Longrightarrow> index s (int (?n div 2) - 1) = Inr (s ! (?n div 2 - 1))"
  proof -
    assume "even ?n"
    with n_pos have "1 \<le> ?n div 2" by presburger
    then have "nat (int (?n div 2) - 1) = ?n div 2 - 1" "0 \<le> int (?n div 2) - 1"
      by simp_all
    moreover have "int (?n div 2) - 1 < int ?n" by simp
    ultimately show ?thesis by (simp add: index_def)
  qed
  have "0 < sint (word_of_int (int ?n) :: 64 word)"
    using n_pos n_lt by (simp add: sint_of_length)
  from sint_quo64 [OF this, of "sum_list s"] n_lt
  obtain a where a: "quo64 (sum_list s) (word_of_int (int ?n)) = Inr a"
    "sint a = sint (sum_list s) sdiv int ?n"
    by (auto simp: sint_of_length)
  have "0 < sint (2 :: 64 word)" by simp
  from sint_quo64 [OF this, of "s ! (?n div 2) + s ! (?n div 2 - 1)"]
  obtain q where q: "quo64 (s ! (?n div 2) + s ! (?n div 2 - 1)) 2 = Inr q"
    "sint q = sint (s ! (?n div 2) + s ! (?n div 2 - 1)) sdiv 2"
    by auto
  show ?thesis
  proof (cases "even ?n")
    case True
    with half par i0 i1 a q have
      "calcMedianAndAverage d = Inr (q, a, d\<lparr>allQueryTimes := s\<rparr>)"
      by (simp add: calcMedianAndAverage_def Let_def sumLoop_sum_list flip: s_def)
    with True a q show ?thesis by simp
  next
    case False
    with half par i0 a have
      "calcMedianAndAverage d = Inr (s ! (?n div 2), a, d\<lparr>allQueryTimes := s\<rparr>)"
      by (simp add: calcMedianAndAverage_def Let_def sumLoop_sum_list flip: s_def)
    with False a show ?thesis by simp
  qed
qed

lemma calc_exact:
  assumes ne: "allQueryTimes d \<noteq> []" and len: "length (allQueryTimes d) < 2 ^ 63"
    and fit: "(\<Sum>x\<leftarrow>allQueryTimes d. \<bar>sint x\<bar>) < 2 ^ 63"
  defines "s \<equiv> sortDurations (allQueryTimes d)"
  shows "sint (sum_list s) = (\<Sum>x\<leftarrow>s. sint x)
    \<and> (even (length s) \<longrightarrow>
         sint (s ! (length s div 2) + s ! (length s div 2 - 1))
           = sint (s ! (length s div 2)) + sint (s ! (length s div 2 - 1)))"
proof -
  let ?n = "length s"
  have n_pos: "0 < ?n" using ne by (simp add: s_def length_sortDurations)
  have abs_sum: "(\<Sum>x\<leftarrow>s. \<bar>sint x\<bar>) < 2 ^ 63"
    using fit by (simp add: s_def sum_list_map_sortDurations)
  have "\<bar>\<Sum>x\<leftarrow>s. sint x\<bar> \<le> (\<Sum>x\<leftarrow>s. \<bar>sint x\<bar>)"
    using sum_list_abs [of "map sint s"] by (simp add: comp_def)
  with abs_sum have tot: "sint (sum_list s) = (\<Sum>x\<leftarrow>s. sint x)"
    by (simp add: sint_sum_list sint_exact)
  have mid: "sint (s ! (?n div 2) + s ! (?n div 2 - 1))
           = sint (s ! (?n div 2)) + sint (s ! (?n div 2 - 1))" if "even ?n"
  proof -
    let ?i = "?n div 2 - 1" and ?j = "?n div 2"
    from that n_pos have ij: "?i < ?j" "?j < ?n" by presburger+
    have "\<bar>sint (s ! ?i)\<bar> + \<bar>sint (s ! ?j)\<bar> \<le> (\<Sum>x\<leftarrow>s. \<bar>sint x\<bar>)"
      using ij by (intro two_le_sum_list) simp_all
    with abs_sum have "\<bar>sint (s ! ?j) + sint (s ! ?i)\<bar> < 2 ^ 63" by linarith
    then show ?thesis by (simp add: sint_word_add sint_exact)
  qed
  from tot mid show ?thesis by blast
qed

text \<open>
  C4: on every non-empty retained vector (of a length a Go \<open>int\<close> holds)
  \<open>calcMedianAndAverage\<close> returns, having left the vector sorted ascending, a
  rearrangement of what it was; the median is the element at \<open>count/2\<close> when the
  count is odd, and the sum of the elements at \<open>count/2\<close> and \<open>count/2 - 1\<close>
  divided by 2 when it is even; the average is the sum of the vector divided by the
  count. Both divisions truncate toward zero (\<open>sdiv\<close> on the signed values). The
  sums are the program's 64-bit \<open>Duration\<close> sums; they are the exact integer sums
  whenever the magnitudes of the samples add up to less than \<open>2^63\<close> nanoseconds.
\<close>

theorem median_average_formulas:
  assumes "allQueryTimes d \<noteq> []" and "length (allQueryTimes d) < 2 ^ 63"
  shows "\<exists>m a s. calcMedianAndAverage d = Inr (m, a, d\<lparr>allQueryTimes := s\<rparr>)
      \<and> sorted (map sint s) \<and> mset s = mset (allQueryTimes d)
      \<and> (odd (length s) \<longrightarrow> m = s ! (length s div 2))
      \<and> (even (length s) \<longrightarrow>
            sint m = sint (s ! (length s div 2) + s ! (length s div 2 - 1)) sdiv 2)
      \<and> sint a = sint (sum_list s) sdiv int (length s)
      \<and> ((\<Sum>x\<leftarrow>s. \<bar>sint x\<bar>) < 2 ^ 63 \<longrightarrow>
            sint (sum_list s) = (\<Sum>x\<leftarrow>s. sint x)
          \<and> (even (length s) \<longrightarrow>
                sint (s ! (length s div 2) + s ! (length s div 2 - 1))
                  = sint (s ! (length s div 2)) + sint (s ! (length s div 2 - 1))))"
proof -
  let ?s = "sortDurations (allQueryTimes d)"
  have "(\<Sum>x\<leftarrow>?s. \<bar>sint x\<bar>) < 2 ^ 63 \<longrightarrow>
            sint (sum_list ?s) = (\<Sum>x\<leftarrow>?s. sint x)
          \<and> (even (length ?s) \<longrightarrow>
                sint (?s ! (length ?s div 2) + ?s ! (length ?s div 2 - 1))
                  = sint (?s ! (length ?s div 2)) + sint (?s ! (length ?s div 2 - 1)))"
    using calc_exact [OF assms] by (simp add: sum_list_map_sortDurations)
  with calc_nonempty [OF assms] sorted_sortDurations [of "allQueryTimes d"]
    mset_sortDurations [of "allQueryTimes d"]
  show ?thesis by blast
qed

theorem median_average_formulas_witness:
  "calcMedianAndAverage \<lparr>numQueries = 4, totalProcessingTime = 10, minQueryTime = Some 1,
       maxQueryTime = Some 4, allQueryTimes = [4, 1, 3, 2]\<rparr>
     = Inr (2, 2, \<lparr>numQueries = 4, totalProcessingTime = 10, minQueryTime = Some 1,
         maxQueryTime = Some 4, allQueryTimes = [1, 2, 3, 4]\<rparr>)
   \<and> (\<exists>m a s. calcMedianAndAverage \<lparr>numQueries = 4, totalProcessingTime = 10,
         minQueryTime = Some 1, maxQueryTime = Some 4, allQueryTimes = [4, 1, 3, 2]\<rparr>
        = Inr (m, a, \<lparr>numQueries = 4, totalProcessingTime = 10, minQueryTime = Some 1,
            maxQueryTime = Some 4, allQueryTimes = s\<rparr>)
      \<and> sorted (map sint s) \<and> even (length s)
      \<and> sint m = sint (s ! (length s div 2) + s ! (length s div 2 - 1)) sdiv 2
      \<and> sint a = sint (sum_list s) sdiv int (length s))"
proof -
  let ?d = "\<lparr>numQueries = 4, totalProcessingTime = 10, minQueryTime = Some 1,
       maxQueryTime = Some 4, allQueryTimes = [4, 1, 3, 2 :: Duration]\<rparr>"
  have ne: "allQueryTimes ?d \<noteq> []" and len: "length (allQueryTimes ?d) < 2 ^ 63"
    by simp_all
  have ev: "calcMedianAndAverage ?d = Inr (2, 2, ?d\<lparr>allQueryTimes := [1, 2, 3, 4]\<rparr>)"
    by (simp add: calcMedianAndAverage_def sortDurations_def index_def quo64_def
        signed_divide_int_def signed_modulo_int_def)
  from median_average_formulas [OF ne len] obtain m a s where
    r: "calcMedianAndAverage ?d = Inr (m, a, ?d\<lparr>allQueryTimes := s\<rparr>)"
    and p: "sorted (map sint s)"
      "even (length s) \<longrightarrow>
         sint m = sint (s ! (length s div 2) + s ! (length s div 2 - 1)) sdiv 2"
      "sint a = sint (sum_list s) sdiv int (length s)"
    by blast
  from r ev have s: "s = [1, 2, 3, 4]" by simp
  then have "even (length s)" by simp
  with r p ev show ?thesis by (intro conjI exI [of _ m] exI [of _ a] exI [of _ s]) simp_all
qed



text \<open>
  C2: on a run with no samples the collector does not report undefined statistics:
  \<open>calcMedianAndAverage\<close> takes the even branch for length 0 and reads
  \<open>allQueryTimes[0]\<close> of the empty vector, an index out of range, before anything is
  printed. The controller, for its part, spawns no worker on the empty input.
\<close>

theorem empty_run_index_out_of_range:
  "calcMedianAndAverage NewDataStore = Inl IndexOutOfRange
   \<and> Collector_Run [] = Inl IndexOutOfRange
   \<and> Run (NewController [] n) = Inr (NewController [] n)
   \<and> workers (NewController [] n) = []"
  by (simp add: Collector_Run_def collect_def calcMedianAndAverage_def NewDataStore_def
      sortDurations_def index_def Run_def NewController_def)

text \<open>
  C7, as stated, for every non-empty multiset of samples: two samples of
  \<open>2^63 - 1\<close> nanoseconds have the 64-bit sum \<open>-2\<close>, so both the median and the
  average come out as \<open>-1\<close>, below the minimum.
\<close>

theorem statistics_ordered_counterexample:
  "Collector_Run [\<lparr>OpTime = 9223372036854775807\<rparr>, \<lparr>OpTime = 9223372036854775807\<rparr>]
     = Inr \<lparr>total = - 2, count = 2, rmin = 9223372036854775807, rmax = 9223372036854775807,
            median = - 1, average = - 1\<rparr>
   \<and> \<not> ((9223372036854775807 :: Duration) \<le>s - 1)"
  by (simp add: Collector_Run_def collect_def calcMedianAndAverage_def NewDataStore_def
      sortDurations_def index_def AddWorkSample_def quo64_def signed_divide_int_def
      word_sless_alt word_sle_eq)

text \<open>
  C7, amended: for every non-empty sequence of samples (of a length a Go \<open>int\<close>
  holds) whose magnitudes add up to less than \<open>2^63\<close> nanoseconds, so that no sum
  wraps, the collector returns a report with \<open>min \<le> median \<le> max\<close> and
  \<open>min \<le> average \<le> max\<close> in the signed order.
\<close>

theorem statistics_ordered:
  assumes ne: "samples \<noteq> []" and len: "length samples < 2 ^ 63"
    and fit: "(\<Sum>x\<leftarrow>samples. \<bar>sint (OpTime x)\<bar>) < 2 ^ 63"
  shows "\<exists>r. Collector_Run samples = Inr r
    \<and> rmin r \<le>s median r \<and> median r \<le>s rmax r
    \<and> rmin r \<le>s average r \<and> average r \<le>s rmax r"
proof -
  let ?d = "collect samples"
  define s where "s = sortDurations (allQueryTimes ?d)"
  let ?n = "length s"
  have all: "allQueryTimes ?d = map OpTime samples" by (rule collect_all)
  have n: "?n = length samples" by (simp add: s_def length_sortDurations all)
  have sets: "set s = OpTime ` set samples" by (simp add: s_def set_sortDurations all)
  from ne all have ne': "allQueryTimes ?d \<noteq> []" by simp
  from len all have len': "length (allQueryTimes ?d) < 2 ^ 63" by simp
  from calc_nonempty [OF ne' len'] obtain m a where
    run: "calcMedianAndAverage ?d = Inr (m, a, ?d\<lparr>allQueryTimes := s\<rparr>)"
    and odd: "odd ?n \<Longrightarrow> m = s ! (?n div 2)"
    and even: "even ?n \<Longrightarrow> sint m = sint (s ! (?n div 2) + s ! (?n div 2 - 1)) sdiv 2"
    and avg: "sint a = sint (sum_list s) sdiv int ?n"
    unfolding s_def by blast
  from ne obtain mn where mn: "minQueryTime ?d = Some mn"
    using collect_min_None [of samples] by auto
  from ne obtain mx where mx: "maxQueryTime ?d = Some mx"
    using collect_max_None [of samples] by auto
  have bnd: "\<forall>x\<in>set s. sint mn \<le> sint x \<and> sint x \<le> sint mx"
    using collect_min_least [OF mn] collect_max_greatest [OF mx] sets by auto
  have abs_sum: "(\<Sum>x\<leftarrow>s. \<bar>sint x\<bar>) < 2 ^ 63"
    using fit by (simp add: s_def sum_list_map_sortDurations all comp_def)
  have n_pos: "0 < ?n" using ne n by simp
  \<comment> \<open>the average\<close>
  have "\<bar>\<Sum>x\<leftarrow>s. sint x\<bar> \<le> (\<Sum>x\<leftarrow>s. \<bar>sint x\<bar>)"
    using sum_list_abs [of "map sint s"] by (simp add: comp_def)
  with abs_sum have "sint (sum_list s) = (\<Sum>x\<leftarrow>s. sint x)"
    by (simp add: sint_sum_list sint_exact)
  with avg have avg': "sint a = (\<Sum>x\<leftarrow>s. sint x) sdiv int ?n" by simp
  from sum_list_bounds [OF bnd] n_pos
  have A: "sint mn \<le> sint a \<and> sint a \<le> sint mx"
    unfolding avg' by (intro sdiv_between) simp_all
  \<comment> \<open>the median\<close>
  have M: "sint mn \<le> sint m \<and> sint m \<le> sint mx"
  proof (cases "even ?n")
    case False
    with odd have "m = s ! (?n div 2)" by simp
    moreover have "s ! (?n div 2) \<in> set s" using n_pos by simp
    ultimately show ?thesis using bnd by blast
  next
    case True
    let ?i = "?n div 2 - 1" and ?j = "?n div 2"
    from True n_pos have ij: "?i < ?j" "?j < ?n" by presburger+
    then have mem: "s ! ?i \<in> set s" "s ! ?j \<in> set s" by simp_all
    have "\<bar>sint (s ! ?i)\<bar> + \<bar>sint (s ! ?j)\<bar> \<le> (\<Sum>x\<leftarrow>s. \<bar>sint x\<bar>)"
      using ij by (intro two_le_sum_list) simp_all
    with abs_sum have "\<bar>sint (s ! ?j) + sint (s ! ?i)\<bar> < 2 ^ 63" by linarith
    then have "sint (s ! ?j + s ! ?i) = sint (s ! ?j) + sint (s ! ?i)"
      by (simp add: sint_word_add sint_exact)
    with even [OF True] have m: "sint m = (sint (s ! ?j) + sint (s ! ?i)) sdiv 2" by simp
    from mem bnd have "sint mn \<le> sint (s ! ?i) \<and> sint (s ! ?i) \<le> sint mx"
      "sint mn \<le> sint (s ! ?j) \<and> sint (s ! ?j) \<le> sint mx"
      by blast+
    then have "2 * sint mn \<le> sint (s ! ?j) + sint (s ! ?i)"
      "sint (s ! ?j) + sint (s ! ?i) \<le> 2 * sint mx"
      by linarith+
    then show ?thesis unfolding m by (intro sdiv_between) simp_all
  qed
  from run mn mx have "Collector_Run samples =
      Inr \<lparr>total = totalProcessingTime ?d, count = numQueries ?d,
           rmin = mn, rmax = mx, median = m, average = a\<rparr>"
    by (simp add: Collector_Run_def)
  with A M show ?thesis by (simp add: word_sle_eq)
qed

theorem statistics_ordered_witness:
  "Collector_Run [\<lparr>OpTime = 1\<rparr>, \<lparr>OpTime = 2\<rparr>, \<lparr>OpTime = 3\<rparr>, \<lparr>OpTime = 4\<rparr>]
     = Inr \<lparr>total = 10, count = 4, rmin = 1, rmax = 4, median = 2, average = 2\<rparr>
   \<and> (1 :: Duration) \<le>s 2 \<and> (2 :: Duration) \<le>s 4"
proof -
  let ?S = "[\<lparr>OpTime = 1\<rparr>, \<lparr>OpTime = 2\<rparr>, \<lparr>OpTime = 3\<rparr>, \<lparr>OpTime = 4\<rparr>]"
  have ev: "Collector_Run ?S
     = Inr \<lparr>total = 10, count = 4, rmin = 1, rmax = 4, median = 2, average = 2\<rparr>"
    by (simp add: Collector_Run_def collect_def calcMedianAndAverage_def NewDataStore_def
      sortDurations_def index_def AddWorkSample_def quo64_def signed_divide_int_def
      signed_modulo_int_def word_sless_alt)
  have h: "?S \<noteq> []" "length ?S < 2 ^ 63" "(\<Sum>x\<leftarrow>?S. \<bar>sint (OpTime x)\<bar>) < 2 ^ 63"
    by simp_all
  from statistics_ordered [OF h] ev show ?thesis by simp
qed

section \<open>The collector does not depend on the order of arrival\<close>

lemma collect_mset:
  assumes "mset s1 = mset s2"
  shows "collect s1 = (collect s2)\<lparr>allQueryTimes := map OpTime s1\<rparr>"
proof -
  from assms have len: "length s1 = length s2" by (rule mset_eq_length)
  from assms have set: "set s1 = set s2" by (rule mset_eq_setD)
  have "sum_mset (image_mset OpTime (mset s1)) = sum_mset (image_mset OpTime (mset s2))"
    using assms by simp
  then have tot: "sum_list (map OpTime s1) = sum_list (map OpTime s2)"
    by (simp only: sum_mset_sum_list flip: mset_map)
  have mn: "minQueryTime (collect s1) = minQueryTime (collect s2)"
  proof (cases "s1 = []")
    case True
    with len show ?thesis by simp
  next
    case False
    with set have "s2 \<noteq> []" by auto
    with False obtain m1 m2 where m: "minQueryTime (collect s1) = Some m1"
      "minQueryTime (collect s2) = Some m2"
      using collect_min_None [of s1] collect_min_None [of s2] by auto
    from collect_min_least [OF m(1)] collect_min_least [OF m(2)] set
    have "sint m1 \<le> sint m2" "sint m2 \<le> sint m1" by auto
    then have "m1 = m2" by (intro sint_inj_64) simp
    with m show ?thesis by simp
  qed
  have mx: "maxQueryTime (collect s1) = maxQueryTime (collect s2)"
  proof (cases "s1 = []")
    case True
    with len show ?thesis by simp
  next
    case False
    with set have "s2 \<noteq> []" by auto
    with False obtain m1 m2 where m: "maxQueryTime (collect s1) = Some m1"
      "maxQueryTime (collect s2) = Some m2"
      using collect_max_None [of s1] collect_max_None [of s2] by auto
    from collect_max_greatest [OF m(1)] collect_max_greatest [OF m(2)] set
    have "sint m1 \<le> sint m2" "sint m2 \<le> sint m1" by auto
    then have "m1 = m2" by (intro sint_inj_64) simp
    with m show ?thesis by simp
  qed
  show ?thesis
    by (rule DataStore.equality)
       (simp_all add: collect_numQueries collect_total collect_all len tot mn mx)
qed

lemma calc_sorted_cong:
  assumes "d1\<lparr>allQueryTimes := sortDurations (allQueryTimes d1)\<rparr>
         = d2\<lparr>allQueryTimes := sortDurations (allQueryTimes d2)\<rparr>"
  shows "calcMedianAndAverage d1 = calcMedianAndAverage d2"
  unfolding calcMedianAndAverage_def Let_def by (simp only: assms)

lemma Collector_Run_mset:
  assumes "mset s1 = mset s2"
  shows "Collector_Run s1 = Collector_Run s2"
proof -
  have "mset (map OpTime s1) = mset (map OpTime s2)" using assms by simp
  then have srt: "sortDurations (map OpTime s1) = sortDurations (map OpTime s2)"
    by (rule sortDurations_mset)
  have "calcMedianAndAverage (collect s1) = calcMedianAndAverage (collect s2)"
    by (rule calc_sorted_cong) (simp add: collect_mset [OF assms] collect_all srt)
  then show ?thesis by (simp add: Collector_Run_def)
qed

section \<open>The controller\<close>

lemma roundRobinSelect_cases:
  assumes "roundRobinSelect c = Inr (w, c')"
  shows "c' = c\<lparr>lbIndex := lbIndex c'\<rparr> \<and> workers c' = workers c
    \<and> workerMap c' = workerMap c \<and> numWorkers c' = numWorkers c \<and> sent c' = sent c
    \<and> 0 < length (workers c)
    \<and> (if int (length (workers c)) = lbIndex c + 1
        then w = workers c ! 0 \<and> lbIndex c' = 0
        else 0 \<le> lbIndex c \<and> lbIndex c < int (length (workers c))
           \<and> w = workers c ! nat (lbIndex c) \<and> lbIndex c' = lbIndex c + 1)"
  using assms by (auto simp: roundRobinSelect_def index_def split: if_splits)

lemma roundRobinSelect_ok:
  assumes "0 \<le> lbIndex c" "lbIndex c = 0 \<or> lbIndex c < int (length (workers c))"
    and "workers c \<noteq> []"
  shows "\<exists>w c'. roundRobinSelect c = Inr (w, c')"
  using assms by (auto simp: roundRobinSelect_def index_def)

lemma dispatch_cases:
  assumes "dispatch c q = Inr c'"
  obtains
    (bound) w where "workerMap c (Host q) = Some w" "c' = c\<lparr>sent := sent c @ [(w, q)]\<rparr>"
  | (overflow) w c1 where "workerMap c (Host q) = None"
      "0 < numWorkers c" "int (length (workers c)) = sint (numWorkers c)"
      "roundRobinSelect c = Inr (w, c1)"
      "c' = c1\<lparr>workerMap := (workerMap c1)(Host q \<mapsto> w), sent := sent c1 @ [(w, q)]\<rparr>"
  | (spawn) "workerMap c (Host q) = None"
      "\<not> (0 < numWorkers c \<and> int (length (workers c)) = sint (numWorkers c))"
      "c' = c\<lparr>workerMap := (workerMap c)(Host q \<mapsto> length (workers c)),
              workers := workers c @ [length (workers c)],
              sent := sent c @ [(length (workers c), q)]\<rparr>"
  using assms
  by (auto simp: dispatch_def Let_def split: option.splits if_splits sum.splits)

lemma cap_nonempty:
  assumes "0 < numWorkers c" "int (length (workers c)) = sint (numWorkers c)"
  shows "workers c \<noteq> []"
proof
  assume "workers c = []"
  with assms(2) have "sint (numWorkers c) = 0" by simp
  then have "numWorkers c = 0" by (rule sint_zero_64)
  with assms(1) show False by simp
qed

lemma dispatch_cursor:
  assumes "0 \<le> lbIndex c" "lbIndex c = 0 \<or> lbIndex c < int (length (workers c))"
  shows "\<exists>c'. dispatch c q = Inr c' \<and> 0 \<le> lbIndex c'
    \<and> (lbIndex c' = 0 \<or> lbIndex c' < int (length (workers c')))
    \<and> numWorkers c' = numWorkers c"
proof (cases "workerMap c (Host q)")
  case (Some w)
  with assms show ?thesis by (simp add: dispatch_def)
next
  case None
  show ?thesis
  proof (cases "0 < numWorkers c \<and> int (length (workers c)) = sint (numWorkers c)")
    case False
    with None assms show ?thesis by (auto simp: dispatch_def Let_def)
  next
    case True
    then have ne: "workers c \<noteq> []" by (intro cap_nonempty) simp_all
    from roundRobinSelect_ok [OF assms ne] obtain w c1 where
      rr: "roundRobinSelect c = Inr (w, c1)" by blast
    from roundRobinSelect_cases [OF rr] assms
    have c1: "workers c1 = workers c" "numWorkers c1 = numWorkers c" "0 \<le> lbIndex c1"
      "lbIndex c1 < int (length (workers c))"
      by (auto split: if_splits)
    with None True rr show ?thesis
      by (simp add: dispatch_def)
  qed
qed

lemma dispatchAll_cursor:
  assumes "0 \<le> lbIndex c" "lbIndex c = 0 \<or> lbIndex c < int (length (workers c))"
  shows "\<exists>c'. dispatchAll c qs = Inr c' \<and> 0 \<le> lbIndex c'
    \<and> (lbIndex c' = 0 \<or> lbIndex c' < int (length (workers c')))
    \<and> numWorkers c' = numWorkers c"
  using assms
proof (induction qs arbitrary: c)
  case Nil
  then show ?case by simp
next
  case (Cons q qs)
  from dispatch_cursor [OF Cons.prems, of q] obtain c1 where
    c1: "dispatch c q = Inr c1" "0 \<le> lbIndex c1"
      "lbIndex c1 = 0 \<or> lbIndex c1 < int (length (workers c1))"
      "numWorkers c1 = numWorkers c"
    by blast
  from Cons.IH [OF c1(2,3)] c1(1,4) show ?case by auto
qed

lemma dispatchAll_append:
  "dispatchAll c (xs @ ys) =
     (case dispatchAll c xs of Inl e \<Rightarrow> Inl e | Inr c' \<Rightarrow> dispatchAll c' ys)"
  by (induction xs arbitrary: c) (auto split: sum.splits)

lemma NewController_cursor:
  "0 \<le> lbIndex (NewController qps n)"
  "lbIndex (NewController qps n) = 0 \<or> lbIndex (NewController qps n) < int (length (workers (NewController qps n)))"
  by (simp_all add: NewController_def)

lemma Run_total: "\<exists>c. Run (NewController qps n) = Inr c"
  using dispatchAll_cursor [OF NewController_cursor, of qps n qps]
  by (auto simp: Run_def NewController_def)

text \<open>
  C10: \<open>Run\<close> never fails, and in every state the controller reaches from
  \<open>NewController\<close>, whenever the next record makes it call \<open>roundRobinSelect\<close> (the
  host is unbound, \<open>numWorkers > 0\<close> and the roster length equals
  \<open>int(numWorkers)\<close>), the roster length is \<open>numWorkers\<close>, at least 1, the cursor
  satisfies \<open>0 \<le> lbIndex < len(workers)\<close>, the call returns a worker of the roster
  without an index out of range, and the cursor it leaves is in range again.
\<close>

theorem roundRobinSelect_in_range:
  "(\<exists>c. Run (NewController qps n) = Inr c)
   \<and> (\<forall>pre c q. dispatchAll (NewController qps n) pre = Inr c
         \<and> workerMap c (Host q) = None
         \<and> 0 < numWorkers c \<and> int (length (workers c)) = sint (numWorkers c)
       \<longrightarrow> numWorkers c = n \<and> length (workers c) = unat n \<and> 1 \<le> unat n
         \<and> 0 \<le> lbIndex c \<and> lbIndex c < int (length (workers c))
         \<and> (\<exists>w c'. roundRobinSelect c = Inr (w, c') \<and> w \<in> set (workers c)
               \<and> 0 \<le> lbIndex c' \<and> lbIndex c' < int (length (workers c'))))"
proof (rule conjI)
  show "\<exists>c. Run (NewController qps n) = Inr c" by (rule Run_total)
next
  show "\<forall>pre c q. dispatchAll (NewController qps n) pre = Inr c
         \<and> workerMap c (Host q) = None
         \<and> 0 < numWorkers c \<and> int (length (workers c)) = sint (numWorkers c)
       \<longrightarrow> numWorkers c = n \<and> length (workers c) = unat n \<and> 1 \<le> unat n
         \<and> 0 \<le> lbIndex c \<and> lbIndex c < int (length (workers c))
         \<and> (\<exists>w c'. roundRobinSelect c = Inr (w, c') \<and> w \<in> set (workers c)
               \<and> 0 \<le> lbIndex c' \<and> lbIndex c' < int (length (workers c')))"
  proof (intro allI impI)
  fix pre c q
  assume a: "dispatchAll (NewController qps n) pre = Inr c
         \<and> workerMap c (Host q) = None
         \<and> 0 < numWorkers c \<and> int (length (workers c)) = sint (numWorkers c)"
  from dispatchAll_cursor [OF NewController_cursor, of qps n pre] a
  have inv: "0 \<le> lbIndex c" "lbIndex c = 0 \<or> lbIndex c < int (length (workers c))"
    and nw: "numWorkers c = n"
    by (auto simp: NewController_def)
  from a have ne: "workers c \<noteq> []" by (intro cap_nonempty) simp_all
  from a have "0 \<le> sint (numWorkers c)" by linarith
  then have "int (unat (numWorkers c)) = sint (numWorkers c)"
    by (rule sint_nonneg_unat)
  with a have "int (length (workers c)) = int (unat (numWorkers c))"
    by (simp only:)
  with nw have len: "length (workers c) = unat n"
    by (simp only: of_nat_eq_iff)
  from ne len have one: "1 \<le> unat n" by (cases "workers c") simp_all
  from inv ne have lb: "lbIndex c < int (length (workers c))" by auto
  from roundRobinSelect_ok [OF inv ne] obtain w c' where
    rr: "roundRobinSelect c = Inr (w, c')" by blast
  from roundRobinSelect_cases [OF rr] inv ne
  have "w \<in> set (workers c)" "0 \<le> lbIndex c'" "lbIndex c' < int (length (workers c))"
    "workers c' = workers c"
    by (auto split: if_splits)
  with rr have ex: "\<exists>w c'. roundRobinSelect c = Inr (w, c') \<and> w \<in> set (workers c)
               \<and> 0 \<le> lbIndex c' \<and> lbIndex c' < int (length (workers c'))"
    by simp
  show "numWorkers c = n \<and> length (workers c) = unat n \<and> 1 \<le> unat n
         \<and> 0 \<le> lbIndex c \<and> lbIndex c < int (length (workers c))
         \<and> (\<exists>w c'. roundRobinSelect c = Inr (w, c') \<and> w \<in> set (workers c)
               \<and> 0 \<le> lbIndex c' \<and> lbIndex c' < int (length (workers c')))"
    using nw len one inv(1) lb ex by blast
  qed
qed

theorem roundRobinSelect_in_range_witness:
  "dispatchAll (NewController (map qp [''h1'', ''h2'', ''h3'']) 2) (map qp [''h1'', ''h2''])
     = Inr \<lparr>data = map qp [''h1'', ''h2'', ''h3''], workers = [0, 1],
         workerMap = [''h1'' \<mapsto> 0, ''h2'' \<mapsto> 1], numWorkers = 2, lbIndex = 0,
         sent = [(0, qp ''h1''), (1, qp ''h2'')]\<rparr>
   \<and> (\<exists>w c'. roundRobinSelect \<lparr>data = map qp [''h1'', ''h2'', ''h3''], workers = [0, 1],
         workerMap = [''h1'' \<mapsto> 0, ''h2'' \<mapsto> 1], numWorkers = 2, lbIndex = 0,
         sent = [(0, qp ''h1''), (1, qp ''h2'')]\<rparr> = Inr (w, c')
       \<and> w \<in> set [0, 1] \<and> 0 \<le> lbIndex c' \<and> lbIndex c' < int (length (workers c')))"
proof -
  let ?c = "\<lparr>data = map qp [''h1'', ''h2'', ''h3''], workers = [0, 1],
         workerMap = [''h1'' \<mapsto> 0, ''h2'' \<mapsto> 1], numWorkers = 2, lbIndex = 0,
         sent = [(0, qp ''h1''), (1, qp ''h2'')]\<rparr>"
  have ev: "dispatchAll (NewController (map qp [''h1'', ''h2'', ''h3'']) 2)
      (map qp [''h1'', ''h2'']) = Inr ?c"
    by (simp add: NewController_def dispatch_def qp_def)
  have h: "workerMap ?c (Host (qp ''h3'')) = None" "0 < numWorkers ?c"
    "int (length (workers ?c)) = sint (numWorkers ?c)"
    by (simp_all add: qp_def)
  from roundRobinSelect_in_range [of "map qp [''h1'', ''h2'', ''h3'']" 2] ev h
  have "\<exists>w c'. roundRobinSelect ?c = Inr (w, c') \<and> w \<in> set (workers ?c)
       \<and> 0 \<le> lbIndex c' \<and> lbIndex c' < int (length (workers c'))"
    by blast
  with ev show ?thesis by simp
qed

lemma dispatch_workerMap_mono:
  assumes "dispatch c q = Inr c'" "workerMap c h = Some w"
  shows "workerMap c' h = Some w"
  using assms(1)
proof (cases rule: dispatch_cases)
  case (bound w')
  with assms(2) show ?thesis by simp
next
  case (overflow w' c1)
  from roundRobinSelect_cases [OF overflow(4)] have "workerMap c1 = workerMap c" by simp
  with overflow(1,5) assms(2) show ?thesis by auto
next
  case spawn
  with assms(2) show ?thesis by auto
qed

lemma dispatch_sent:
  assumes "dispatch c q = Inr c'"
  shows "\<exists>w. sent c' = sent c @ [(w, q)] \<and> workerMap c' (Host q) = Some w"
  using assms
proof (cases rule: dispatch_cases)
  case (bound w)
  then show ?thesis by simp
next
  case (overflow w c1)
  from roundRobinSelect_cases [OF overflow(4)] have "sent c1 = sent c" by simp
  with overflow(5) show ?thesis by simp
next
  case spawn
  then show ?thesis by simp
qed

lemma dispatchAll_workerMap_mono:
  "dispatchAll c qs = Inr c' \<Longrightarrow> workerMap c h = Some w \<Longrightarrow> workerMap c' h = Some w"
proof (induction qs arbitrary: c)
  case Nil
  then show ?case by simp
next
  case (Cons q qs)
  from Cons.prems(1) obtain c1 where c1: "dispatch c q = Inr c1" "dispatchAll c1 qs = Inr c'"
    by (auto split: sum.splits)
  from dispatch_workerMap_mono [OF c1(1) Cons.prems(2)] Cons.IH [OF c1(2)]
  show ?case by simp
qed

lemma dispatchAll_sent:
  assumes "dispatchAll c qs = Inr c'"
    and "\<forall>(w, q)\<in>set (sent c). workerMap c (Host q) = Some w"
  shows "map snd (sent c') = map snd (sent c) @ qs
    \<and> (\<forall>(w, q)\<in>set (sent c'). workerMap c' (Host q) = Some w)"
  using assms
proof (induction qs arbitrary: c)
  case Nil
  then show ?case by simp
next
  case (Cons q qs)
  from Cons.prems(1) obtain c1 where c1: "dispatch c q = Inr c1" "dispatchAll c1 qs = Inr c'"
    by (auto split: sum.splits)
  from dispatch_sent [OF c1(1)] obtain w where
    w: "sent c1 = sent c @ [(w, q)]" "workerMap c1 (Host q) = Some w" by blast
  have "\<forall>(w, q)\<in>set (sent c1). workerMap c1 (Host q) = Some w"
    using Cons.prems(2) w dispatch_workerMap_mono [OF c1(1)] by auto
  from Cons.IH [OF c1(2) this] w(1) show ?case by simp
qed

text \<open>
  C3: \<open>Run\<close> sends every record, in input order, to exactly one worker; two
  records with the same host go to the same worker; and a binding present in the
  routing table after any prefix of the input (made by a spawn or by the round-robin
  branch) is the binding at the end of the run.
\<close>

theorem host_affinity:
  "\<exists>c'. Run (NewController qps n) = Inr c'
     \<and> map snd (sent c') = qps
     \<and> (\<forall>i j. i < j \<and> j < length qps \<and> Host (qps ! i) = Host (qps ! j)
           \<longrightarrow> fst (sent c' ! i) = fst (sent c' ! j))
     \<and> (\<forall>k c h w. dispatchAll (NewController qps n) (take k qps) = Inr c
             \<and> workerMap c h = Some w
           \<longrightarrow> workerMap c' h = Some w)"
proof -
  let ?c0 = "NewController qps n"
  from Run_total obtain c' where run: "Run ?c0 = Inr c'" by blast
  then have all: "dispatchAll ?c0 qps = Inr c'" by (simp add: Run_def NewController_def)
  have "\<forall>(w, q)\<in>set (sent ?c0). workerMap ?c0 (Host q) = Some w"
    by (simp add: NewController_def)
  from dispatchAll_sent [OF all this]
  have snd: "map snd (sent c') = qps"
    and J: "\<forall>(w, q)\<in>set (sent c'). workerMap c' (Host q) = Some w"
    by (simp_all add: NewController_def)
  from snd have len: "length (sent c') = length qps" by (metis length_map)
  have nth: "workerMap c' (Host (qps ! i)) = Some (fst (sent c' ! i))" if "i < length qps" for i
  proof -
    from that len have "sent c' ! i \<in> set (sent c')" by simp
    with J have "workerMap c' (Host (snd (sent c' ! i))) = Some (fst (sent c' ! i))"
      by (auto simp: case_prod_unfold)
    moreover from snd that len have "snd (sent c' ! i) = qps ! i"
      by (metis nth_map)
    ultimately show ?thesis by simp
  qed
  have aff: "fst (sent c' ! i) = fst (sent c' ! j)"
    if "i < j \<and> j < length qps \<and> Host (qps ! i) = Host (qps ! j)" for i j
    using nth [of i] nth [of j] that by simp
  have mono: "workerMap c' h = Some w"
    if "dispatchAll ?c0 (take k qps) = Inr c \<and> workerMap c h = Some w" for k c h w
  proof -
    have "dispatchAll ?c0 (take k qps @ drop k qps) = Inr c'" using all by simp
    with that have "dispatchAll c (drop k qps) = Inr c'"
      by (simp only: dispatchAll_append) simp
    with that show ?thesis by (blast intro: dispatchAll_workerMap_mono)
  qed
  from run snd aff mono show ?thesis by blast
qed

theorem host_affinity_witness:
  "\<exists>c'. Run (NewController (map qp [''h1'', ''h2'', ''h3'', ''h3'', ''h1'', ''h2'']) 2) = Inr c'
     \<and> fst (sent c' ! 2) = fst (sent c' ! 3)
     \<and> workerMap c' ''h2'' = Some 1"
proof -
  let ?qps = "map qp [''h1'', ''h2'', ''h3'', ''h3'', ''h1'', ''h2'']"
  let ?c = "\<lparr>data = ?qps, workers = [0, 1],
         workerMap = [''h1'' \<mapsto> 0, ''h2'' \<mapsto> 1], numWorkers = 2, lbIndex = 0,
         sent = [(0, qp ''h1''), (1, qp ''h2'')]\<rparr>"
  have ev: "dispatchAll (NewController ?qps 2) (take 2 ?qps) = Inr ?c"
    by (simp add: NewController_def dispatch_def qp_def)
  have b: "workerMap ?c ''h2'' = Some 1" by simp
  have ij: "(2::nat) < 3 \<and> 3 < length ?qps \<and> Host (?qps ! 2) = Host (?qps ! 3)"
    by (simp add: qp_def)
  from host_affinity [of ?qps 2] obtain c' where
    run: "Run (NewController ?qps 2) = Inr c'"
    and aff: "\<forall>i j. i < j \<and> j < length ?qps \<and> Host (?qps ! i) = Host (?qps ! j)
           \<longrightarrow> fst (sent c' ! i) = fst (sent c' ! j)"
    and keep: "\<forall>k c h w. dispatchAll (NewController ?qps 2) (take k ?qps) = Inr c
             \<and> workerMap c h = Some w \<longrightarrow> workerMap c' h = Some w"
    by blast
  from aff ij have "fst (sent c' ! 2) = fst (sent c' ! 3)" by blast
  moreover from keep ev b have "workerMap c' ''h2'' = Some 1" by blast
  ultimately show ?thesis using run by blast
qed

lemma dispatch_count:
  assumes "dispatch c q = Inr c'"
    and "0 < sint (numWorkers c) \<longrightarrow> int (length (workers c)) \<le> sint (numWorkers c)"
    and "length (workers c) \<le> length (sent c)"
  shows "(0 < sint (numWorkers c') \<longrightarrow> int (length (workers c')) \<le> sint (numWorkers c'))
    \<and> length (workers c') \<le> length (sent c') \<and> numWorkers c' = numWorkers c"
  using assms(1)
proof (cases rule: dispatch_cases)
  case (bound w)
  with assms(2,3) show ?thesis by simp
next
  case (overflow w c1)
  from roundRobinSelect_cases [OF overflow(4)]
  have "workers c1 = workers c" "numWorkers c1 = numWorkers c" "sent c1 = sent c" by simp_all
  with overflow(5) assms(2,3) show ?thesis by simp
next
  case spawn
  have "0 < sint (numWorkers c) \<longrightarrow> int (length (workers c)) < sint (numWorkers c)"
  proof
    assume that: "0 < sint (numWorkers c)"
    from that have "numWorkers c \<noteq> 0" by auto
    then have "0 < numWorkers c" by (simp add: word_greater_zero_iff)
    with spawn(2) have "int (length (workers c)) \<noteq> sint (numWorkers c)" by simp
    with assms(2) that show "int (length (workers c)) < sint (numWorkers c)" by simp
  qed
  with spawn(3) assms(3) show ?thesis by auto
qed

lemma dispatchAll_count:
  assumes "dispatchAll c qs = Inr c'"
    and "0 < sint (numWorkers c) \<longrightarrow> int (length (workers c)) \<le> sint (numWorkers c)"
    and "length (workers c) \<le> length (sent c)"
  shows "(0 < sint (numWorkers c') \<longrightarrow> int (length (workers c')) \<le> sint (numWorkers c'))
    \<and> length (workers c') \<le> length (sent c') \<and> numWorkers c' = numWorkers c"
  using assms
proof (induction qs arbitrary: c)
  case Nil
  then show ?case by simp
next
  case (Cons q qs)
  from Cons.prems(1) obtain c1 where c1: "dispatch c q = Inr c1" "dispatchAll c1 qs = Inr c'"
    by (auto split: sum.splits)
  from dispatch_count [OF c1(1) Cons.prems(2,3)]
  have k: "0 < sint (numWorkers c1) \<longrightarrow> int (length (workers c1)) \<le> sint (numWorkers c1)"
    "length (workers c1) \<le> length (sent c1)" "numWorkers c1 = numWorkers c"
    by blast+
  from Cons.IH [OF c1(2) k(1,2)] k(3) show ?case by metis
qed

lemma dispatch_unbounded:
  assumes "dispatch c q = Inr c'" "numWorkers c = 0"
    and "finite (dom (workerMap c))" "card (dom (workerMap c)) = length (workers c)"
  shows "numWorkers c' = 0 \<and> finite (dom (workerMap c'))
    \<and> card (dom (workerMap c')) = length (workers c')
    \<and> dom (workerMap c') = insert (Host q) (dom (workerMap c))"
  using assms(1)
proof (cases rule: dispatch_cases)
  case (bound w)
  with assms(2-) show ?thesis by auto
next
  case (overflow w c1)
  with assms(2) show ?thesis by simp
next
  case spawn
  from spawn(1) have "Host q \<notin> dom (workerMap c)" by auto
  with spawn(3) assms(2-) show ?thesis by simp
qed

lemma dispatchAll_unbounded:
  assumes "dispatchAll c qs = Inr c'" "numWorkers c = 0"
    and "finite (dom (workerMap c))" "card (dom (workerMap c)) = length (workers c)"
  shows "card (dom (workerMap c')) = length (workers c')
    \<and> dom (workerMap c') = Host ` set qs \<union> dom (workerMap c)"
  using assms
proof (induction qs arbitrary: c)
  case Nil
  then show ?case by simp
next
  case (Cons q qs)
  from Cons.prems(1) obtain c1 where c1: "dispatch c q = Inr c1" "dispatchAll c1 qs = Inr c'"
    by (auto split: sum.splits)
  from dispatch_unbounded [OF c1(1) Cons.prems(2-)]
  have s: "numWorkers c1 = 0" "finite (dom (workerMap c1))"
    "card (dom (workerMap c1)) = length (workers c1)"
    "dom (workerMap c1) = insert (Host q) (dom (workerMap c))"
    by blast+
  from Cons.IH [OF c1(2) s(1-3)] s(4) show ?case by auto
qed

lemma workers_le_cap:
  assumes run: "dispatchAll (NewController qps n) pre = Inr c"
    and len: "length pre < 2 ^ 63" and pos: "0 < n"
  shows "length (workers c) \<le> max 1 (unat n)"
proof -
  let ?c0 = "NewController qps n"
  have "\<forall>(w, q)\<in>set (sent ?c0). workerMap ?c0 (Host q) = Some w"
    by (simp add: NewController_def)
  from dispatchAll_sent [OF run this] have "map snd (sent c) = pre"
    by (simp add: NewController_def)
  then have sent: "length (sent c) = length pre" by (metis length_map)
  have "(0 < sint (numWorkers c) \<longrightarrow> int (length (workers c)) \<le> sint (numWorkers c))
    \<and> length (workers c) \<le> length (sent c) \<and> numWorkers c = numWorkers ?c0"
    by (rule dispatchAll_count [OF run]) (simp_all add: NewController_def)
  then have k: "0 < sint (numWorkers c) \<longrightarrow> int (length (workers c)) \<le> sint (numWorkers c)"
    "length (workers c) \<le> length (sent c)" "numWorkers c = numWorkers ?c0"
    by blast+
  from k(3) have nw: "numWorkers c = n" by (simp add: NewController_def)
  from k(1) nw have cap: "0 < sint n \<Longrightarrow> int (length (workers c)) \<le> sint n" by simp
  from k(2) sent have le: "length (workers c) \<le> length pre" by simp
  show ?thesis
  proof (cases "0 < sint n")
    case True
    with cap sint_nonneg_unat [of n] have "int (length (workers c)) \<le> int (unat n)"
      by linarith
    then have "length (workers c) \<le> unat n" by (simp only: of_nat_le_iff)
    then show ?thesis by simp
  next
    case False
    from pos have "n \<noteq> 0" by auto
    with sint_zero_64 [of n] False have "sint n < 0" by fastforce
    from sint_neg_unat [OF this] le len show ?thesis by simp
  qed
qed

text \<open>
  C5: for every input (of a length a Go \<open>int\<close> holds), when \<open>numWorkers > 0\<close> the
  number of workers spawned is at most \<open>max(1, numWorkers)\<close> at the end of \<open>Run\<close> and
  after every prefix of the input; when \<open>numWorkers = 0\<close> the run ends with as many
  workers as there are distinct hosts in the input.
\<close>

theorem worker_count_bounds:
  assumes "length qps < 2 ^ 63"
  shows "\<exists>c. Run (NewController qps n) = Inr c
    \<and> (0 < n \<longrightarrow> length (workers c) \<le> max 1 (unat n)
          \<and> (\<forall>k c'. dispatchAll (NewController qps n) (take k qps) = Inr c'
                \<longrightarrow> length (workers c') \<le> max 1 (unat n)))
    \<and> (n = 0 \<longrightarrow> length (workers c) = card (Host ` set qps))"
proof -
  let ?c0 = "NewController qps n"
  from Run_total obtain c where run: "Run ?c0 = Inr c" by blast
  then have all: "dispatchAll ?c0 qps = Inr c" by (simp add: Run_def NewController_def)
  have fin: "length (workers c) \<le> max 1 (unat n)" if "0 < n"
    using workers_le_cap [OF all assms that] .
  have pre: "length (workers c') \<le> max 1 (unat n)"
    if "0 < n" "dispatchAll ?c0 (take k qps) = Inr c'" for k c'
  proof -
    have "length (take k qps) < 2 ^ 63" using assms by simp
    from workers_le_cap [OF that(2) this that(1)] show ?thesis .
  qed
  have zero: "length (workers c) = card (Host ` set qps)" if "n = 0"
  proof -
    have "card (dom (workerMap c)) = length (workers c)
      \<and> dom (workerMap c) = Host ` set qps \<union> dom (workerMap ?c0)"
      by (rule dispatchAll_unbounded [OF all]) (simp_all add: NewController_def that)
    moreover have "dom (workerMap ?c0) = {}" by (simp add: NewController_def)
    ultimately show ?thesis by (metis Un_empty_right)
  qed
  from run fin pre zero show ?thesis by blast
qed

theorem worker_count_bounds_witness:
  "(\<exists>c. Run (NewController (map qp [''h1'', ''h2'', ''h3'', ''h3'', ''h1'', ''h2'']) 2) = Inr c
      \<and> length (workers c) \<le> 2)
   \<and> (\<exists>c. Run (NewController (map qp [''h1'', ''h2'', ''h3'', ''h3'', ''h1'', ''h2'']) 0) = Inr c
      \<and> length (workers c) = 3)"
proof -
  let ?qps = "map qp [''h1'', ''h2'', ''h3'', ''h3'', ''h1'', ''h2'']"
  have len: "length ?qps < 2 ^ 63" by simp
  have card: "card (Host ` set ?qps) = 3" by (simp add: qp_def card_insert_if)
  from worker_count_bounds [OF len, of 2] obtain c where
    c: "Run (NewController ?qps 2) = Inr c"
      "0 < (2 :: 64 word) \<longrightarrow> length (workers c) \<le> max 1 (unat (2 :: 64 word))"
    by blast
  have "0 < (2 :: 64 word)" and "max 1 (unat (2 :: 64 word)) = 2" by simp_all
  with c(2) have two: "length (workers c) \<le> 2" by (simp only:)
  from worker_count_bounds [OF len, of 0] obtain c0 where
    c0: "Run (NewController ?qps 0) = Inr c0"
      "(0 :: 64 word) = 0 \<longrightarrow> length (workers c0) = card (Host ` set ?qps)"
    by blast
  from c0(2) card have "length (workers c0) = 3" by (simp only:)
  with c c0(1) two show ?thesis by blast
qed

text \<open>
  C1: with a cap of 2 and the hosts \<open>h1, h2, h3, h4\<close> in this order, the two workers
  are spawned for \<open>h1\<close> and \<open>h2\<close>; the first overflow host \<open>h3\<close> is bound to worker
  0 and the cursor moves to 1; for the second overflow host \<open>h4\<close> the test
  \<open>len(workers) == lbIndex + 1\<close> holds, so \<open>roundRobinSelect\<close> resets the cursor to 0
  and returns \<open>workers[0]\<close> again, not \<open>workers[1]\<close>: the last worker of the roster
  is never chosen for an overflow host.
\<close>

theorem roundRobin_second_overflow:
  "(case Run (NewController (map qp [''h1'', ''h2'', ''h3'', ''h4'']) 2) of
      Inl e \<Rightarrow> None
    | Inr c \<Rightarrow> Some (map fst (sent c), workerMap c ''h3'', workerMap c ''h4'', lbIndex c))
   = Some ([0, 1, 0, 0], Some 0, Some 0, 0)"
  by (simp add: Run_def NewController_def dispatch_def roundRobinSelect_def index_def qp_def)

text \<open>
  The same holds in general: the roster holds distinct handles, and in no state the
  controller reaches with two workers or more does \<open>roundRobinSelect\<close> return the last
  of them.
\<close>

lemma roundRobinSelect_never_last:
  assumes "roundRobinSelect c = Inr (w, c')" "2 \<le> length (workers c)"
    and "distinct (workers c)"
  shows "w \<noteq> last (workers c)"
proof -
  let ?ws = "workers c"
  from assms(2) have ne: "?ws \<noteq> []" by auto
  then have last: "last ?ws = ?ws ! (length ?ws - 1)" by (rule last_conv_nth)
  from roundRobinSelect_cases [OF assms(1)] assms(2)
  obtain i where i: "w = ?ws ! i" "i < length ?ws" "i \<noteq> length ?ws - 1"
  proof (cases "int (length ?ws) = lbIndex c + 1")
    case True
    with roundRobinSelect_cases [OF assms(1)] have "w = ?ws ! 0" by simp
    moreover from assms(2) have "0 < length ?ws" "0 \<noteq> length ?ws - 1" by linarith+
    ultimately show ?thesis by (rule that)
  next
    case False
    with roundRobinSelect_cases [OF assms(1)]
    have "0 \<le> lbIndex c" "lbIndex c < int (length ?ws)" "w = ?ws ! nat (lbIndex c)"
      by simp_all
    with False that [of "nat (lbIndex c)"] show ?thesis by auto
  qed
  from i assms(3) have "?ws ! i \<noteq> ?ws ! (length ?ws - 1)"
    using ne by (simp add: nth_eq_iff_index_eq)
  with i(1) last show ?thesis by simp
qed

lemma dispatch_roster:
  assumes "dispatch c q = Inr c'" "workers c = [0..<length (workers c)]"
  shows "workers c' = [0..<length (workers c')]"
  using assms(1)
proof (cases rule: dispatch_cases)
  case (bound w)
  with assms(2) show ?thesis by simp
next
  case (overflow w c1)
  from roundRobinSelect_cases [OF overflow(4)] have "workers c1 = workers c" by simp
  with overflow(5) assms(2) show ?thesis by simp
next
  case spawn
  have "workers c @ [length (workers c)] = [0..<Suc (length (workers c))]"
    using assms(2) by (simp only: upt_Suc_append [OF le0])
  with spawn(3) show ?thesis by simp
qed

lemma dispatchAll_roster:
  "dispatchAll c qs = Inr c' \<Longrightarrow> workers c = [0..<length (workers c)]
     \<Longrightarrow> workers c' = [0..<length (workers c')]"
proof (induction qs arbitrary: c)
  case Nil
  then show ?case by simp
next
  case (Cons q qs)
  from Cons.prems(1) obtain c1 where c1: "dispatch c q = Inr c1" "dispatchAll c1 qs = Inr c'"
    by (auto split: sum.splits)
  from Cons.IH [OF c1(2) dispatch_roster [OF c1(1) Cons.prems(2)]] show ?case .
qed

lemma overflow_never_last:
  assumes "dispatchAll (NewController qps n) pre = Inr c"
    and "roundRobinSelect c = Inr (w, c')" "2 \<le> length (workers c)"
  shows "w \<noteq> last (workers c)"
proof -
  have "workers c = [0..<length (workers c)]"
    by (rule dispatchAll_roster [OF assms(1)]) (simp add: NewController_def)
  then have "distinct (workers c)" by (metis distinct_upt)
  from roundRobinSelect_never_last [OF assms(2,3) this] show ?thesis .
qed

lemma dispatch_hosts:
  assumes "Host q1 = Host q2"
    and "workers c1 = workers c2" "workerMap c1 = workerMap c2"
    and "numWorkers c1 = numWorkers c2" "lbIndex c1 = lbIndex c2"
    and "map fst (sent c1) = map fst (sent c2)"
    and "dispatch c1 q1 = Inr c1'" "dispatch c2 q2 = Inr c2'"
  shows "workers c1' = workers c2' \<and> workerMap c1' = workerMap c2'
    \<and> numWorkers c1' = numWorkers c2' \<and> lbIndex c1' = lbIndex c2'
    \<and> map fst (sent c1') = map fst (sent c2')"
  using assms
  by (auto simp: dispatch_def roundRobinSelect_def index_def Let_def
      split: option.splits if_splits)

lemma dispatchAll_hosts:
  assumes "map Host qs1 = map Host qs2"
    and "workers c1 = workers c2" "workerMap c1 = workerMap c2"
    and "numWorkers c1 = numWorkers c2" "lbIndex c1 = lbIndex c2"
    and "map fst (sent c1) = map fst (sent c2)"
    and "dispatchAll c1 qs1 = Inr c1'" "dispatchAll c2 qs2 = Inr c2'"
  shows "workers c1' = workers c2' \<and> workerMap c1' = workerMap c2'
    \<and> numWorkers c1' = numWorkers c2' \<and> lbIndex c1' = lbIndex c2'
    \<and> map fst (sent c1') = map fst (sent c2')"
  using assms
proof (induction qs1 arbitrary: qs2 c1 c2)
  case Nil
  then show ?case by simp
next
  case (Cons q1 qs1)
  from Cons.prems(1) obtain q2 qs2' where q2: "qs2 = q2 # qs2'" "Host q1 = Host q2"
    "map Host qs1 = map Host qs2'"
    by (cases qs2) auto
  from Cons.prems(7) obtain d1 where d1: "dispatch c1 q1 = Inr d1" "dispatchAll d1 qs1 = Inr c1'"
    by (auto split: sum.splits)
  from Cons.prems(8) q2(1) obtain d2 where d2: "dispatch c2 q2 = Inr d2"
    "dispatchAll d2 qs2' = Inr c2'"
    by (auto split: sum.splits)
  from dispatch_hosts [OF q2(2) Cons.prems(2-6) d1(1) d2(1)]
  have k: "workers d1 = workers d2" "workerMap d1 = workerMap d2"
    "numWorkers d1 = numWorkers d2" "lbIndex d1 = lbIndex d2"
    "map fst (sent d1) = map fst (sent d2)"
    by blast+
  from Cons.IH [OF q2(3) k d1(2) d2(2)] show ?case .
qed

text \<open>
  C8: two runs whose inputs have the same sequence of hosts (in particular two runs
  over the same input) and the same cap end with the same routing table, the same
  roster, the same cursor and the same worker for each record in turn; and two runs in
  which the collector receives the same multiset of samples, in whatever order the
  workers deliver them, print the same report (or fail alike).
\<close>

theorem runs_deterministic:
  assumes "map Host qps1 = map Host qps2" and "mset samples1 = mset samples2"
  shows "Collector_Run samples1 = Collector_Run samples2
    \<and> (\<exists>c1 c2. Run (NewController qps1 n) = Inr c1 \<and> Run (NewController qps2 n) = Inr c2
          \<and> workerMap c1 = workerMap c2 \<and> workers c1 = workers c2
          \<and> lbIndex c1 = lbIndex c2 \<and> map fst (sent c1) = map fst (sent c2))"
proof -
  from Run_total obtain c1 where c1: "Run (NewController qps1 n) = Inr c1" by blast
  from Run_total obtain c2 where c2: "Run (NewController qps2 n) = Inr c2" by blast
  from c1 have a1: "dispatchAll (NewController qps1 n) qps1 = Inr c1"
    by (simp add: Run_def NewController_def)
  from c2 have a2: "dispatchAll (NewController qps2 n) qps2 = Inr c2"
    by (simp add: Run_def NewController_def)
  have "workers c1 = workers c2 \<and> workerMap c1 = workerMap c2
    \<and> numWorkers c1 = numWorkers c2 \<and> lbIndex c1 = lbIndex c2
    \<and> map fst (sent c1) = map fst (sent c2)"
    by (rule dispatchAll_hosts [OF assms(1) _ _ _ _ _ a1 a2]) (simp_all add: NewController_def)
  with c1 c2 Collector_Run_mset [OF assms(2)] show ?thesis by blast
qed

theorem runs_deterministic_witness:
  "Collector_Run [\<lparr>OpTime = 5\<rparr>, \<lparr>OpTime = 1\<rparr>, \<lparr>OpTime = 3\<rparr>]
     = Collector_Run [\<lparr>OpTime = 3\<rparr>, \<lparr>OpTime = 5\<rparr>, \<lparr>OpTime = 1\<rparr>]
   \<and> (\<exists>c1 c2. Run (NewController (map qp [''h1'', ''h2'', ''h3'', ''h1'']) 2) = Inr c1
        \<and> Run (NewController [\<lparr>Host = ''h1'', Start = ''a'', End = ''b''\<rparr>,
              \<lparr>Host = ''h2'', Start = ''c'', End = ''d''\<rparr>,
              \<lparr>Host = ''h3'', Start = ''e'', End = ''f''\<rparr>,
              \<lparr>Host = ''h1'', Start = ''g'', End = ''h''\<rparr>] 2) = Inr c2
        \<and> workerMap c1 = workerMap c2 \<and> workers c1 = workers c2
        \<and> lbIndex c1 = lbIndex c2 \<and> map fst (sent c1) = map fst (sent c2))"
proof -
  let ?q1 = "map qp [''h1'', ''h2'', ''h3'', ''h1'']"
  let ?q2 = "[\<lparr>Host = ''h1'', Start = ''a'', End = ''b''\<rparr>,
              \<lparr>Host = ''h2'', Start = ''c'', End = ''d''\<rparr>,
              \<lparr>Host = ''h3'', Start = ''e'', End = ''f''\<rparr>,
              \<lparr>Host = ''h1'', Start = ''g'', End = ''h''\<rparr>]"
  have h: "map Host ?q1 = map Host ?q2" by (simp add: qp_def)
  have m: "mset [\<lparr>OpTime = 5\<rparr>, \<lparr>OpTime = 1\<rparr>, \<lparr>OpTime = 3\<rparr>]
      = mset [\<lparr>OpTime = 3\<rparr>, \<lparr>OpTime = 5\<rparr>, \<lparr>OpTime = 1 :: Duration\<rparr>]"
    by simp
  from runs_deterministic [OF h m, of 2] show ?thesis .
qed

end
